theory Spec2Isabelle
  imports Main "HOL-Library.AList"
begin

section \<open>The data model\<close>

text \<open>
  Times are milliseconds since the epoch, as \<^verbatim>\<open>Date.now()\<close> returns them. The source
  stores a time as an ISO string (\<^verbatim>\<open>toISOString\<close>) and reads it back with
  \<^verbatim>\<open>new Date(s).getTime()\<close>; on the millisecond values of a valid date the two are
  inverse, so a stored time is its millisecond value here, an unbounded \<open>int\<close> (the
  doubles of the source are exact on this range).

  A handler that reads the clock twice (\<^verbatim>\<open>Date.now()\<close> and \<^verbatim>\<open>new Date()\<close>) takes the two
  readings as two arguments, in the order of the reads, and so does every event of a
  run. Where a claim speaks of the one instant \<open>now\<close> of a single request, its theorem
  passes that instant for both readings.

  The two stores are plain JavaScript objects used as dictionaries: \<^verbatim>\<open>store[key]\<close> gives
  the store's own property of that name and, when it has none, the property that every
  object inherits from \<^verbatim>\<open>Object.prototype\<close>. The own properties are an association list
  with distinct keys for \<^verbatim>\<open>dbCache\<close>, which the sweeper iterates (the order of the keys
  plays no part in what follows), and a map for \<^verbatim>\<open>rateLimitStore\<close>, which is only
  indexed. The inherited ones are modelled below.
\<close>

type_synonym time = int

text \<open>config.js\<close>

definition RATE_LIMIT :: nat where
  "RATE_LIMIT = 5"

definition RATE_WINDOW_MS :: int where
  "RATE_WINDOW_MS = 60 * 60 * 1000"

definition EXPIRY_MS :: int where
  "EXPIRY_MS = 168 * 60 * 60 * 1000"

definition LAST_ACCESS_LIMIT :: int where
  "LAST_ACCESS_LIMIT = 72 * 60 * 60 * 1000"

text \<open>An entry of \<^verbatim>\<open>dbCache\<close>, as POST /shorten builds it.\<close>

record entry =
  originalUrl :: string
  created :: time
  expires :: time
  lastAccessed :: time
  clicks :: nat

type_synonym cache = "(string \<times> entry) list"

text \<open>
  The module state of db.js, and what the runtime holds for it: the timeouts that
  \<^verbatim>\<open>setTimeout\<close> has scheduled and that have not fired yet, and the contents of the file
  \<^verbatim>\<open>DB_FILE\<close>. Two counters are not variables of the source: \<open>writes\<close> counts the calls
  of \<^verbatim>\<open>writeFileSync\<close> and \<open>saveCalls\<close> the calls of \<^verbatim>\<open>bufferedSave\<close>.
  \<open>protoLastAccessed\<close> says whether \<^verbatim>\<open>Object.prototype\<close> has got a \<^verbatim>\<open>lastAccessed\<close>.
\<close>

record state =
  dbCache :: cache
  saveTimer :: "nat option"
  timeouts :: "nat list"
  lastTimeout :: nat
  disk :: "cache option"
  writes :: nat
  saveCalls :: nat
  protoLastAccessed :: bool

definition initial :: state where
  "initial = \<lparr>dbCache = [], saveTimer = None, timeouts = [], lastTimeout = 0,
     disk = None, writes = 0, saveCalls = 0, protoLastAccessed = False\<rparr>"

text \<open>An entry of \<^verbatim>\<open>rateLimitStore\<close>, keyed by \<^verbatim>\<open>req.ip\<close>.\<close>

record rateRecord =
  count :: nat
  windowStart :: time

type_synonym rateStore = "string \<rightharpoonup> rateRecord"

section \<open>Inherited properties\<close>

text \<open>
  The names of the properties of \<^verbatim>\<open>Object.prototype\<close> in Node. Each holds a function,
  but \<^verbatim>\<open>__proto__\<close>, which gives \<^verbatim>\<open>Object.prototype\<close> itself: an object in either
  case, truthy, and one that takes new properties.
\<close>

definition objectPrototypeNames :: "string list" where
  "objectPrototypeNames =
     [''constructor'', ''__defineGetter__'', ''__defineSetter__'', ''hasOwnProperty'',
      ''__lookupGetter__'', ''__lookupSetter__'', ''isPrototypeOf'', ''propertyIsEnumerable'',
      ''toString'', ''valueOf'', ''__proto__'', ''toLocaleString'']"

text \<open>
  The handlers write three properties on what a lookup gives them: \<^verbatim>\<open>count\<close> (the
  limiter), \<^verbatim>\<open>clicks\<close> and \<^verbatim>\<open>lastAccessed\<close> (the two GET handlers). On an entry or a
  window these are its own. On an inherited function they become properties of that
  function, which no lookup in a store reads. On \<^verbatim>\<open>Object.prototype\<close> itself, reached
  under the name \<^verbatim>\<open>__proto__\<close>, they become properties that every object inherits:
  \<^verbatim>\<open>count\<close> and \<^verbatim>\<open>clicks\<close> hold \<^verbatim>\<open>NaN\<close> from then on (\<^verbatim>\<open>undefined + 1\<close>), which is
  falsy like \<^verbatim>\<open>undefined\<close>, and \<^verbatim>\<open>lastAccessed\<close> holds a date string, which is truthy.
  So one bit of this state bears on later lookups: whether \<^verbatim>\<open>Object.prototype\<close> has
  got a \<^verbatim>\<open>lastAccessed\<close>.

  What a store without an own property \<open>key\<close> gives for \<^verbatim>\<open>store[key]\<close>:
\<close>

datatype inherited =
    Falsy
  | InheritedObject
  | InheritedString

definition inheritedProperty :: "bool \<Rightarrow> string \<Rightarrow> inherited" where
  "inheritedProperty proto key =
     (if key \<in> set objectPrototypeNames then InheritedObject
      else if key = ''lastAccessed'' \<and> proto then InheritedString
      else Falsy)"

text \<open>
  A key under which no store ever finds an inherited object or string. Every id that
  \<^verbatim>\<open>nanoid(6)\<close> returns is one: it has six characters.
\<close>

definition plainKey :: "string \<Rightarrow> bool" where
  "plainKey key = (inheritedProperty True key = Falsy)"

section \<open>db.js\<close>

text \<open>
  \<^verbatim>\<open>setTimeout(cb, 200)\<close>: the runtime returns a handle it has not used before and keeps
  the callback until the delay has elapsed. The only callback db.js ever schedules is
  the flush below, so a pending timeout is its handle.
\<close>

definition setTimeout :: "state \<Rightarrow> nat \<times> state" where
  "setTimeout st =
     (let h = Suc (lastTimeout st)
      in (h, st\<lparr>timeouts := timeouts st @ [h], lastTimeout := h\<rparr>))"

text \<open>
  \<^verbatim>\<open>if (saveTimer) return; saveTimer = setTimeout(..., 200)\<close>. A handle is never falsy.
\<close>

definition bufferedSave :: "state \<Rightarrow> state" where
  "bufferedSave st0 =
     (let st = st0\<lparr>saveCalls := Suc (saveCalls st0)\<rparr>
      in case saveTimer st of
           Some h \<Rightarrow> st
         | None \<Rightarrow> (let (h, st') = setTimeout st in st'\<lparr>saveTimer := Some h\<rparr>))"

text \<open>
  The callback: \<^verbatim>\<open>writeFileSync(DB_FILE, JSON.stringify(dbCache)); saveTimer = null\<close>.
  The write is taken to succeed.
\<close>

definition flush :: "state \<Rightarrow> state" where
  "flush st = st\<lparr>disk := Some (dbCache st), writes := Suc (writes st), saveTimer := None\<rparr>"

text \<open>The delay of the oldest pending timeout elapses: the runtime runs its callback.\<close>

definition timeoutFires :: "state \<Rightarrow> state" where
  "timeoutFires st =
     (case timeouts st of
        [] \<Rightarrow> st
      | h # hs \<Rightarrow> flush (st\<lparr>timeouts := hs\<rparr>))"

text \<open>
  The loop of \<^verbatim>\<open>recycle\<close> over \<^verbatim>\<open>Object.entries(dbCache)\<close>, a snapshot taken before the
  first deletion; the pair is the cache and the flag \<^verbatim>\<open>changed\<close>.
\<close>

fun recycleLoop :: "time \<Rightarrow> (string \<times> entry) list \<Rightarrow> cache \<times> bool \<Rightarrow> cache \<times> bool" where
  "recycleLoop now [] (c, changed) = (c, changed)"
| "recycleLoop now ((sid, e) # rest) (c, changed) =
     (if now > expires e \<or> now - lastAccessed e > LAST_ACCESS_LIMIT
      then recycleLoop now rest (AList.delete sid c, True)
      else recycleLoop now rest (c, changed))"

definition recycle :: "time \<Rightarrow> state \<Rightarrow> state" where
  "recycle now st =
     (let (c, changed) = recycleLoop now (dbCache st) (dbCache st, False);
          st' = st\<lparr>dbCache := c\<rparr>
      in if changed then bufferedSave st' else st')"

section \<open>middleware.js\<close>

datatype admission = Admitted | Denied | LimiterThrows

text \<open>
  \<^verbatim>\<open>rateLimiter\<close>: \<open>Admitted\<close> is the call of \<^verbatim>\<open>next()\<close>, \<open>Denied\<close> the 429 response.
  \<open>now\<close> is \<^verbatim>\<open>Date.now()\<close>, \<open>now'\<close> the later \<^verbatim>\<open>new Date()\<close> of the new window, and
  \<open>proto\<close> whether \<^verbatim>\<open>Object.prototype\<close> has got a \<^verbatim>\<open>lastAccessed\<close> by then.

  When the store has no window of its own under \<open>ip\<close>, \<^verbatim>\<open>record\<close> is what it inherits.
  An inherited object is truthy; its \<^verbatim>\<open>windowStart\<close> is \<^verbatim>\<open>undefined\<close>, which makes the
  date \<^verbatim>\<open>NaN\<close> and the test of staleness false; its \<^verbatim>\<open>count\<close> is \<^verbatim>\<open>undefined\<close> or \<^verbatim>\<open>NaN\<close>,
  which makes \<^verbatim>\<open>count >= RATE_LIMIT\<close> false; so \<^verbatim>\<open>record.count++\<close> sets the count of
  that object to \<^verbatim>\<open>NaN\<close> and the request goes on to \<^verbatim>\<open>next()\<close>, with no window stored.
  An inherited string passes the two tests in the same way, and \<^verbatim>\<open>record.count++\<close>
  then throws a \<^verbatim>\<open>TypeError\<close>, as every assignment to a property of a string does in a
  module.
\<close>

definition rateLimiter :: "bool \<Rightarrow> string \<Rightarrow> time \<Rightarrow> time \<Rightarrow> rateStore \<Rightarrow> admission \<times> rateStore" where
  "rateLimiter proto ip now now' store =
     (case store ip of
        None \<Rightarrow>
          (case inheritedProperty proto ip of
             Falsy \<Rightarrow> (Admitted, store(ip \<mapsto> \<lparr>count = 1, windowStart = now'\<rparr>))
           | InheritedObject \<Rightarrow> (Admitted, store)
           | InheritedString \<Rightarrow> (LimiterThrows, store))
      | Some r \<Rightarrow>
          if now - windowStart r > RATE_WINDOW_MS
          then (Admitted, store(ip \<mapsto> \<lparr>count = 1, windowStart = now'\<rparr>))
          else if count r \<ge> RATE_LIMIT then (Denied, store)
          else (Admitted, store(ip \<mapsto> r\<lparr>count := count r + 1\<rparr>)))"

text \<open>
  A sequence of requests to the limiter, from the first to the last, each with its
  client, its two clock readings and the state of \<^verbatim>\<open>Object.prototype\<close> it meets: the
  decisions and the store they leave.
\<close>

fun runLimiter :: "(string \<times> time \<times> time \<times> bool) list \<Rightarrow> rateStore \<Rightarrow> admission list \<times> rateStore" where
  "runLimiter [] store = ([], store)"
| "runLimiter ((ip, now, now', proto) # calls) store =
     (let (d, store') = rateLimiter proto ip now now' store;
          (ds, store'') = runLimiter calls store'
      in (d # ds, store''))"

text \<open>How many of these requests of the client \<open>ip\<close> are admitted.\<close>

fun admitted :: "string \<Rightarrow> (string \<times> time \<times> time \<times> bool) list \<Rightarrow> rateStore \<Rightarrow> nat" where
  "admitted ip [] store = 0"
| "admitted ip ((c, now, now', proto) # calls) store =
     (let (d, store') = rateLimiter proto c now now' store
      in (if c = ip \<and> d = Admitted then 1 else 0) + admitted ip calls store')"

section \<open>routes.js\<close>

text \<open>
  The last three answers are those of a lookup that finds no entry of the cache but an
  inherited property: the redirect to the \<^verbatim>\<open>originalUrl\<close> of an inherited object, which is
  \<^verbatim>\<open>undefined\<close>; the statistics of such an object, in which only the id and the new
  \<^verbatim>\<open>lastAccessed\<close> are defined and \<^verbatim>\<open>clicks\<close> is \<^verbatim>\<open>NaN\<close>; and the \<^verbatim>\<open>TypeError\<close> that the
  handler throws on an inherited string.
\<close>

datatype response =
    Status400
  | Status201 string time
  | Status404
  | Redirect302 string
  | StatsJson string string nat time time time
  | Redirect302Undefined
  | StatsJsonInherited string time
  | HandlerThrows

text \<open>
  POST /shorten, once the limiter has admitted the request. \<open>url\<close> is the field of the
  body (\<open>None\<close> when it is missing), \<open>sid\<close> what \<^verbatim>\<open>nanoid(6)\<close> returns, \<open>now\<close> the reading
  \<^verbatim>\<open>new Date()\<close> and \<open>now'\<close> the later \<^verbatim>\<open>Date.now()\<close>. The id is stored without a look
  at the cache.
\<close>

definition shorten :: "string option \<Rightarrow> string \<Rightarrow> time \<Rightarrow> time \<Rightarrow> state \<Rightarrow> response \<times> state" where
  "shorten url sid now now' st =
     (case url of
        None \<Rightarrow> (Status400, st)
      | Some u \<Rightarrow>
          if u = [] then (Status400, st)
          else
            (let e = \<lparr>originalUrl = u, created = now, expires = now' + EXPIRY_MS,
                      lastAccessed = now, clicks = 0\<rparr>;
                 st' = bufferedSave (st\<lparr>dbCache := AList.update sid e (dbCache st)\<rparr>)
             in (Status201 sid (now' + EXPIRY_MS), st')))"

text \<open>
  GET /:id. \<open>now\<close> is the \<^verbatim>\<open>Date.now()\<close> of the test, \<open>now'\<close> the \<^verbatim>\<open>new Date()\<close> stored in
  \<^verbatim>\<open>lastAccessed\<close>. The 404 branch deletes an expired entry and does not call
  \<^verbatim>\<open>bufferedSave\<close>.

  When the cache has no entry of its own under the id, \<^verbatim>\<open>entry\<close> is what it inherits.
  An inherited object is truthy and its \<^verbatim>\<open>expires\<close> is \<^verbatim>\<open>undefined\<close>, which makes the
  date \<^verbatim>\<open>NaN\<close> and the test false: the handler skips the 404, sets \<^verbatim>\<open>clicks\<close> and
  \<^verbatim>\<open>lastAccessed\<close> on that object (on \<^verbatim>\<open>Object.prototype\<close> when the id is \<^verbatim>\<open>__proto__\<close>),
  calls \<^verbatim>\<open>bufferedSave\<close> and answers from the object; the cache keeps its entries. On
  an inherited string \<^verbatim>\<open>entry.clicks++\<close> throws.
\<close>

definition getId :: "string \<Rightarrow> time \<Rightarrow> time \<Rightarrow> state \<Rightarrow> response \<times> state" where
  "getId sid now now' st =
     (case map_of (dbCache st) sid of
        None \<Rightarrow>
          (case inheritedProperty (protoLastAccessed st) sid of
             Falsy \<Rightarrow> (Status404, st)
           | InheritedObject \<Rightarrow>
               (Redirect302Undefined,
                bufferedSave (st\<lparr>protoLastAccessed := protoLastAccessed st \<or> sid = ''__proto__''\<rparr>))
           | InheritedString \<Rightarrow> (HandlerThrows, st))
      | Some e \<Rightarrow>
          if now > expires e
          then (Status404, st\<lparr>dbCache := AList.delete sid (dbCache st)\<rparr>)
          else
            (let e' = e\<lparr>clicks := clicks e + 1, lastAccessed := now'\<rparr>;
                 st' = bufferedSave (st\<lparr>dbCache := AList.update sid e' (dbCache st)\<rparr>)
             in (Redirect302 (originalUrl e'), st')))"

text \<open>GET /:id/stats: the same test and the same update, answered with the entry.\<close>

definition getStats :: "string \<Rightarrow> time \<Rightarrow> time \<Rightarrow> state \<Rightarrow> response \<times> state" where
  "getStats sid now now' st =
     (case map_of (dbCache st) sid of
        None \<Rightarrow>
          (case inheritedProperty (protoLastAccessed st) sid of
             Falsy \<Rightarrow> (Status404, st)
           | InheritedObject \<Rightarrow>
               (StatsJsonInherited sid now',
                bufferedSave (st\<lparr>protoLastAccessed := protoLastAccessed st \<or> sid = ''__proto__''\<rparr>))
           | InheritedString \<Rightarrow> (HandlerThrows, st))
      | Some e \<Rightarrow>
          if now > expires e
          then (Status404, st\<lparr>dbCache := AList.delete sid (dbCache st)\<rparr>)
          else
            (let e' = e\<lparr>clicks := clicks e + 1, lastAccessed := now'\<rparr>;
                 st' = bufferedSave (st\<lparr>dbCache := AList.update sid e' (dbCache st)\<rparr>)
             in (StatsJson sid (originalUrl e') (clicks e') (created e') (expires e')
                   (lastAccessed e'), st')))"

section \<open>Runs of the store\<close>

text \<open>
  What happens to the store, one event at a time: a request, with the two clock
  readings of its handler, a run of the sweeper, or a timeout that fires.
\<close>

datatype event =
    Create "string option" string time time
  | Resolve string time time
  | Inspect string time time
  | Sweep time
  | TimeoutFires

fun step :: "event \<Rightarrow> state \<Rightarrow> state" where
  "step (Create url sid now now') st = snd (shorten url sid now now' st)"
| "step (Resolve sid now now') st = snd (getId sid now now' st)"
| "step (Inspect sid now now') st = snd (getStats sid now now' st)"
| "step (Sweep now) st = recycle now st"
| "step TimeoutFires st = timeoutFires st"

fun run :: "event list \<Rightarrow> state \<Rightarrow> state" where
  "run [] st = st"
| "run (ev # evs) st = run evs (step ev st)"

text \<open>Whether the event stores a new entry under \<open>sid\<close>.\<close>

fun creates :: "string \<Rightarrow> event \<Rightarrow> bool" where
  "creates sid (Create url sid' now now') = (sid' = sid)"
| "creates sid ev = False"

section \<open>Invariants\<close>

text \<open>
  Every window of the limiter's store has counted at least one and at most
  \<open>RATE_LIMIT\<close> requests.
\<close>

definition windowsOk :: "rateStore \<Rightarrow> bool" where
  "windowsOk store = (\<forall>ip r. store ip = Some r \<longrightarrow> 1 \<le> count r \<and> count r \<le> RATE_LIMIT)"

text \<open>
  \<open>saveTimer\<close> holds a handle exactly while the runtime holds the timeout of that
  handle, and the runtime holds no other timeout.
\<close>

definition timerOk :: "state \<Rightarrow> bool" where
  "timerOk st =
     (case saveTimer st of
        None \<Rightarrow> timeouts st = []
      | Some h \<Rightarrow> timeouts st = [h])"

text \<open>
  What the entries of the cache keep under a clock that never goes back: an entry
  expires no earlier than \<open>EXPIRY_MS\<close> after its creation and was last accessed at or
  after its creation, and not after the instant \<open>t\<close>.
\<close>

definition recordsOk :: "time \<Rightarrow> state \<Rightarrow> bool" where
  "recordsOk t st =
     (\<forall>(sid, e) \<in> set (dbCache st).
        created e + EXPIRY_MS \<le> expires e \<and> created e \<le> lastAccessed e \<and> lastAccessed e \<le> t)"

text \<open>
  The clock never goes back: every reading of the run is at or after the instant \<open>t\<close>
  and at or after the readings before it, and the second reading of a request is at or
  after its first.
\<close>

fun clockOk :: "time \<Rightarrow> event list \<Rightarrow> bool" where
  "clockOk t [] = True"
| "clockOk t (Create url sid now now' # evs) = (t \<le> now \<and> now \<le> now' \<and> clockOk now' evs)"
| "clockOk t (Resolve sid now now' # evs) = (t \<le> now \<and> now \<le> now' \<and> clockOk now' evs)"
| "clockOk t (Inspect sid now now' # evs) = (t \<le> now \<and> now \<le> now' \<and> clockOk now' evs)"
| "clockOk t (Sweep now # evs) = (t \<le> now \<and> clockOk now evs)"
| "clockOk t (TimeoutFires # evs) = clockOk t evs"

text \<open>The two readings of the event, when it is a POST /shorten, are the same instant.\<close>

fun readsAgree :: "event \<Rightarrow> bool" where
  "readsAgree (Create url sid now now') = (now = now')"
| "readsAgree ev = True"

section \<open>Keys\<close>

lemma plainKey_inherited: "plainKey key \<Longrightarrow> inheritedProperty proto key = Falsy"
  by (auto simp: plainKey_def inheritedProperty_def split: if_splits)

text \<open>No name that a store inherits has six characters.\<close>

lemma nanoid_plainKey: "length key = 6 \<Longrightarrow> plainKey key"
  by (auto simp: plainKey_def inheritedProperty_def objectPrototypeNames_def)

section \<open>The admission limiter\<close>

lemma rateLimiter_windowsOk:
  assumes "windowsOk store"
  shows "windowsOk (snd (rateLimiter proto ip now now' store))"
  using assms
  by (auto simp: windowsOk_def rateLimiter_def RATE_LIMIT_def split: option.splits inherited.splits)

lemma runLimiter_windowsOk:
  "windowsOk store \<Longrightarrow> windowsOk (snd (runLimiter calls store))"
proof (induction calls arbitrary: store)
  case Nil
  then show ?case by simp
next
  case (Cons c calls)
  obtain ip now now' proto where c: "c = (ip, now, now', proto)" by (cases c)
  have "windowsOk (snd (rateLimiter proto ip now now' store))"
    using Cons.prems by (rule rateLimiter_windowsOk)
  then have "windowsOk (snd (runLimiter calls (snd (rateLimiter proto ip now now' store))))"
    by (rule Cons.IH)
  then show ?case
    by (simp add: c split_beta)
qed

lemma windowsOk_empty: "windowsOk Map.empty"
  by (simp add: windowsOk_def)

text \<open>A request of another client leaves the window of \<open>ip\<close> as it is.\<close>

lemma rateLimiter_other:
  "c \<noteq> ip \<Longrightarrow> snd (rateLimiter proto c now now' store) ip = store ip"
  by (simp add: rateLimiter_def split: option.splits inherited.splits)

text \<open>The first request of a client with a plain key opens a window.\<close>

lemma rateLimiter_opens:
  "plainKey ip \<Longrightarrow> store ip = None \<Longrightarrow>
     rateLimiter proto ip now now' store = (Admitted, store(ip \<mapsto> \<lparr>count = 1, windowStart = now'\<rparr>))"
  by (simp add: rateLimiter_def plainKey_inherited)

text \<open>
  While the window of \<open>ip\<close> does not go stale, the requests it has counted and the
  requests admitted from now on stay within the limit together.
\<close>

lemma admitted_in_window:
  assumes "store ip = Some r" and "count r \<le> RATE_LIMIT"
    and "\<forall>(c, t, t', p) \<in> set calls. c = ip \<longrightarrow> t - windowStart r \<le> RATE_WINDOW_MS"
  shows "admitted ip calls store + count r \<le> RATE_LIMIT"
  using assms
proof (induction calls arbitrary: store r)
  case Nil
  then show ?case by simp
next
  case (Cons x calls)
  obtain c t t' p where x: "x = (c, t, t', p)" by (cases x)
  show ?case
  proof (cases "c = ip")
    case False
    have "snd (rateLimiter p c t t' store) ip = Some r"
      using False Cons.prems(1) by (simp add: rateLimiter_other)
    from Cons.IH [of "snd (rateLimiter p c t t' store)" r] this Cons.prems(2,3) False
    show ?thesis by (simp add: x split_beta)
  next
    case True
    have fresh: "\<not> t - windowStart r > RATE_WINDOW_MS"
      using Cons.prems(3) True by (simp add: x)
    show ?thesis
    proof (cases "count r \<ge> RATE_LIMIT")
      case full: True
      have "rateLimiter p ip t t' store = (Denied, store)"
        using Cons.prems(1) fresh full by (simp add: rateLimiter_def)
      moreover have "admitted ip calls store + count r \<le> RATE_LIMIT"
        using Cons.IH [of store r] Cons.prems by simp
      ultimately show ?thesis by (simp add: x True)
    next
      case room: False
      let ?r = "r\<lparr>count := count r + 1\<rparr>"
      have rl: "rateLimiter p ip t t' store = (Admitted, store(ip \<mapsto> ?r))"
        using Cons.prems(1) fresh room by (simp add: rateLimiter_def)
      have "admitted ip calls (store(ip \<mapsto> ?r)) + count ?r \<le> RATE_LIMIT"
        using room Cons.prems(3) by (intro Cons.IH) auto
      then show ?thesis by (simp add: x True rl)
    qed
  qed
qed

text \<open>
  When the requests of \<open>ip\<close> lie less than a window apart, at most one of them opens a
  new window: the old window admits what it has left, the new one at most the limit.
\<close>

lemma admitted_burst:
  assumes "plainKey ip"
    and "\<forall>(c, t, t', p) \<in> set calls. c = ip \<longrightarrow> t \<le> t'"
    and "\<forall>(c, t, t', p) \<in> set calls. \<forall>(d, u, u', q) \<in> set calls.
           c = ip \<and> d = ip \<longrightarrow> u - t < RATE_WINDOW_MS"
  shows "(store ip = None \<longrightarrow> admitted ip calls store \<le> RATE_LIMIT) \<and>
         (\<forall>r. store ip = Some r \<and> count r \<le> RATE_LIMIT \<longrightarrow>
              admitted ip calls store + count r \<le> 2 * RATE_LIMIT)"
  using assms(2,3)
proof (induction calls arbitrary: store)
  case Nil
  then show ?case by simp
next
  case (Cons x calls)
  obtain c t t' p where x: "x = (c, t, t', p)" by (cases x)
  have order: "\<forall>(c, t, t', p) \<in> set calls. c = ip \<longrightarrow> t \<le> t'"
    using Cons.prems(1) by auto
  have span: "\<forall>(c, t, t', p) \<in> set calls. \<forall>(d, u, u', q) \<in> set calls.
           c = ip \<and> d = ip \<longrightarrow> u - t < RATE_WINDOW_MS"
    using Cons.prems(2) by auto
  note IH = Cons.IH [OF order span]
  show ?case
  proof (cases "c = ip")
    case False
    have "snd (rateLimiter p c t t' store) ip = store ip"
      using False by (simp add: rateLimiter_other)
    with IH [of "snd (rateLimiter p c t t' store)"] False
    show ?thesis by (simp add: x split_beta)
  next
    case True
    have "t \<le> t'"
      using Cons.prems(1) True by (simp add: x)
    moreover have "\<forall>(d, u, u', q) \<in> set calls. d = ip \<longrightarrow> u - t < RATE_WINDOW_MS"
      using Cons.prems(2) True by (fastforce simp: x)
    ultimately have near: "\<forall>(d, u, u', q) \<in> set calls. d = ip \<longrightarrow> u - t' \<le> RATE_WINDOW_MS"
      by fastforce
    let ?new = "\<lparr>count = 1, windowStart = t'\<rparr>"
    have reset: "admitted ip calls (store(ip \<mapsto> ?new)) + 1 \<le> RATE_LIMIT"
      using admitted_in_window [of "store(ip \<mapsto> ?new)" ip ?new calls] near
      by (simp add: RATE_LIMIT_def)
    show ?thesis
    proof (cases "store ip")
      case None
      then have "rateLimiter p ip t t' store = (Admitted, store(ip \<mapsto> ?new))"
        using assms(1) by (simp add: rateLimiter_opens)
      with reset None show ?thesis by (simp add: x True)
    next
      case (Some r)
      show ?thesis
      proof (cases "t - windowStart r > RATE_WINDOW_MS")
        case stale: True
        then have "rateLimiter p ip t t' store = (Admitted, store(ip \<mapsto> ?new))"
          using Some by (simp add: rateLimiter_def)
        with reset Some show ?thesis by (simp add: x True)
      next
        case fresh: False
        show ?thesis
        proof (cases "count r \<ge> RATE_LIMIT")
          case full: True
          have "rateLimiter p ip t t' store = (Denied, store)"
            using Some fresh full by (simp add: rateLimiter_def)
          with IH [of store] Some show ?thesis by (simp add: x True)
        next
          case room: False
          let ?r = "r\<lparr>count := count r + 1\<rparr>"
          have rl: "rateLimiter p ip t t' store = (Admitted, store(ip \<mapsto> ?r))"
            using Some fresh room by (simp add: rateLimiter_def)
          have "(store(ip \<mapsto> ?r)) ip = Some ?r \<and> count ?r \<le> RATE_LIMIT"
            using room by simp
          with IH [of "store(ip \<mapsto> ?r)"]
          have "admitted ip calls (store(ip \<mapsto> ?r)) + count ?r \<le> 2 * RATE_LIMIT"
            by blast
          with Some show ?thesis by (simp add: x True rl)
        qed
      qed
    qed
  qed
qed

text \<open>
  For a client with a plain key the bound of claim C2 holds: in every store the limiter
  reaches from the empty store, of the requests of that client in any sequence of
  requests whose first readings lie less than \<open>RATE_WINDOW_MS\<close> apart at most
  \<open>2 * RATE_LIMIT - 1\<close>, that is 9, are admitted. The run below admits 9 within
  3599999 ms.
\<close>

lemma burst_bound_plainKey:
  assumes "plainKey ip"
    and "\<forall>(c, t, t', p) \<in> set calls. c = ip \<longrightarrow> t \<le> t'"
    and "\<forall>(c, t, t', p) \<in> set calls. \<forall>(d, u, u', q) \<in> set calls.
           c = ip \<and> d = ip \<longrightarrow> u - t < RATE_WINDOW_MS"
  shows "admitted ip calls (snd (runLimiter before Map.empty)) \<le> 2 * RATE_LIMIT - 1"
proof -
  let ?store = "snd (runLimiter before Map.empty)"
  have ok: "windowsOk ?store"
    using windowsOk_empty by (rule runLimiter_windowsOk)
  show ?thesis
  proof (cases "?store ip")
    case None
    with admitted_burst [OF assms, of ?store] show ?thesis
      by (simp add: RATE_LIMIT_def)
  next
    case (Some r)
    then have "1 \<le> count r" and "count r \<le> RATE_LIMIT"
      using ok by (simp_all add: windowsOk_def)
    with admitted_burst [OF assms, of ?store] Some show ?thesis
      by (simp add: RATE_LIMIT_def)
  qed
qed

lemma burst_of_nine:
  "admitted ''203.0.113.7''
     [(''203.0.113.7'', 2, 2, False), (''203.0.113.7'', 2, 3, False), (''198.51.100.1'', 3, 3, False),
      (''203.0.113.7'', 4, 4, False), (''203.0.113.7'', 5, 5, False),
      (''203.0.113.7'', 3600001, 3600001, False), (''203.0.113.7'', 3600001, 3600001, False),
      (''203.0.113.7'', 3600001, 3600001, False), (''203.0.113.7'', 3600001, 3600001, False),
      (''203.0.113.7'', 3600001, 3600001, False), (''203.0.113.7'', 3600001, 3600001, False)]
     (snd (runLimiter [(''203.0.113.7'', 0, 0, False)] Map.empty)) = 9"
  by (simp add: rateLimiter_def inheritedProperty_def objectPrototypeNames_def
      RATE_WINDOW_MS_def RATE_LIMIT_def)

text \<open>
  Claim C2 says that no client is admitted more than \<open>2 * RATE_LIMIT - 1\<close> = 9 times
  within less than \<open>RATE_WINDOW_MS\<close>. The code breaks it for a client whose key names
  an inherited property: ten requests of the client \<open>constructor\<close> at one instant,
  to a limiter that has seen no request yet, are all admitted, and no window is stored.
\<close>

theorem inherited_key_unlimited:
  "runLimiter (replicate 10 (''constructor'', 1000, 1000, False)) Map.empty =
     (replicate 10 Admitted, Map.empty)
   \<and> admitted ''constructor'' (replicate 10 (''constructor'', 1000, 1000, False)) Map.empty = 10
   \<and> \<not> admitted ''constructor'' (replicate 10 (''constructor'', 1000, 1000, False)) Map.empty
         \<le> 2 * RATE_LIMIT - 1"
  by (simp add: rateLimiter_def inheritedProperty_def objectPrototypeNames_def RATE_LIMIT_def
      eval_nat_numeral)

text \<open>\<open>admitted\<close> counts the decisions \<open>Admitted\<close> that \<open>runLimiter\<close> returns for \<open>ip\<close>.\<close>

lemma admitted_runLimiter:
  "admitted ip calls store =
     length (filter (\<lambda>((c, t, t', p), d). c = ip \<and> d = Admitted)
       (zip calls (fst (runLimiter calls store))))"
  by (induction calls arbitrary: store) (auto simp: split_beta)

text \<open>The requests of a client whose window neither goes stale nor gets full.\<close>

lemma run_in_window:
  assumes "store ip = Some r"
    and "\<forall>(c, t, t', p) \<in> set calls. c = ip \<and> t - windowStart r \<le> RATE_WINDOW_MS"
    and "count r + length calls \<le> RATE_LIMIT"
  shows "runLimiter calls store =
           (replicate (length calls) Admitted, store(ip \<mapsto> r\<lparr>count := count r + length calls\<rparr>))"
  using assms
proof (induction calls arbitrary: store r)
  case Nil
  then show ?case by (simp add: fun_upd_idem)
next
  case (Cons x calls)
  obtain c t t' p where x: "x = (c, t, t', p)" by (cases x)
  have c: "c = ip" and fresh: "t - windowStart r \<le> RATE_WINDOW_MS"
    using Cons.prems(2) by (simp_all add: x)
  let ?r = "r\<lparr>count := count r + 1\<rparr>"
  have rl: "rateLimiter p ip t t' store = (Admitted, store(ip \<mapsto> ?r))"
    using Cons.prems(1,3) fresh by (simp add: rateLimiter_def)
  have "runLimiter calls (store(ip \<mapsto> ?r)) =
          (replicate (length calls) Admitted,
           (store(ip \<mapsto> ?r))(ip \<mapsto> ?r\<lparr>count := count ?r + length calls\<rparr>))"
    using Cons.prems by (intro Cons.IH) simp_all
  then have "runLimiter calls (store(ip \<mapsto> ?r)) =
          (replicate (length calls) Admitted,
           store(ip \<mapsto> r\<lparr>count := count r + length (x # calls)\<rparr>))"
    by simp
  then show ?case by (simp add: x c rl del: fun_upd_apply)
qed

text \<open>
  For a client with a plain key what claim C4 says holds: with no window, or with a
  stale one, its request and \<open>RATE_LIMIT - 1\<close> more within \<open>RATE_WINDOW_MS\<close> of the
  start of the window that the first one opens are all admitted, and one more within
  the window is denied and leaves the store unchanged.
\<close>

lemma limit_then_denied_plainKey:
  assumes "plainKey ip"
    and "store ip = None \<or> (\<exists>r. store ip = Some r \<and> t1 - windowStart r > RATE_WINDOW_MS)"
    and "length calls = RATE_LIMIT - 1"
    and "\<forall>(c, t, t', p) \<in> set calls. c = ip \<and> t - t1' \<le> RATE_WINDOW_MS"
    and "t6 - t1' \<le> RATE_WINDOW_MS"
  shows "runLimiter ((ip, t1, t1', p1) # calls) store =
           (replicate RATE_LIMIT Admitted, store(ip \<mapsto> \<lparr>count = RATE_LIMIT, windowStart = t1'\<rparr>))
       \<and> rateLimiter p6 ip t6 t6' (store(ip \<mapsto> \<lparr>count = RATE_LIMIT, windowStart = t1'\<rparr>)) =
           (Denied, store(ip \<mapsto> \<lparr>count = RATE_LIMIT, windowStart = t1'\<rparr>))"
proof -
  let ?w = "\<lparr>count = 1, windowStart = t1'\<rparr>"
  have first: "rateLimiter p1 ip t1 t1' store = (Admitted, store(ip \<mapsto> ?w))"
    using assms(1,2) by (auto simp: rateLimiter_opens) (simp add: rateLimiter_def)
  have "runLimiter calls (store(ip \<mapsto> ?w)) =
          (replicate (length calls) Admitted,
           (store(ip \<mapsto> ?w))(ip \<mapsto> ?w\<lparr>count := count ?w + length calls\<rparr>))"
    using assms(3,4) by (intro run_in_window) (simp_all add: RATE_LIMIT_def)
  then have five: "runLimiter ((ip, t1, t1', p1) # calls) store =
      (replicate RATE_LIMIT Admitted, store(ip \<mapsto> \<lparr>count = RATE_LIMIT, windowStart = t1'\<rparr>))"
    using assms(3) by (simp add: first RATE_LIMIT_def eval_nat_numeral del: fun_upd_apply)
  have sixth: "rateLimiter p6 ip t6 t6' (store(ip \<mapsto> \<lparr>count = RATE_LIMIT, windowStart = t1'\<rparr>)) =
      (Denied, store(ip \<mapsto> \<lparr>count = RATE_LIMIT, windowStart = t1'\<rparr>))"
    using assms(5) by (simp add: rateLimiter_def)
  from five sixth show ?thesis by simp
qed

text \<open>
  Claim C4 says that of the requests of a client within one window the first
  \<open>RATE_LIMIT\<close> are admitted and the next one is denied. The code breaks it for a
  client whose key names an inherited property: of six requests of the client
  \<open>constructor\<close> within one minute, to a limiter that has seen no request yet, the sixth
  is admitted like the five before it, and no window is stored.
\<close>

theorem inherited_key_sixth_admitted:
  "runLimiter
     [(''constructor'', 10, 10, False), (''constructor'', 20, 20, False), (''constructor'', 30, 30, False),
      (''constructor'', 40, 40, False), (''constructor'', 50, 50, False), (''constructor'', 60, 60, False)]
     Map.empty =
     ([Admitted, Admitted, Admitted, Admitted, Admitted, Admitted], Map.empty)"
  by (simp add: rateLimiter_def inheritedProperty_def objectPrototypeNames_def)

text \<open>
  Claim C5. When the window of a client is stale (\<open>now - windowStart > RATE_WINDOW_MS\<close>),
  whatever it has counted, also the full count that had requests denied, the next
  request is admitted and replaces the window by one that counts 1 and starts at \<open>now\<close>.
\<close>

theorem stale_window_reset:
  assumes "store ip = Some r" and "now - windowStart r > RATE_WINDOW_MS"
  shows "rateLimiter proto ip now now store = (Admitted, store(ip \<mapsto> \<lparr>count = 1, windowStart = now\<rparr>))"
  using assms by (simp add: rateLimiter_def)

theorem stale_window_reset_witness:
  "rateLimiter False ''203.0.113.7'' 3600001 3600001 [''203.0.113.7'' \<mapsto> \<lparr>count = 5, windowStart = 0\<rparr>] =
     (Admitted, [''203.0.113.7'' \<mapsto> \<lparr>count = 1, windowStart = 3600001\<rparr>])"
  using stale_window_reset [of "[''203.0.113.7'' \<mapsto> \<lparr>count = 5, windowStart = 0\<rparr>]" "''203.0.113.7''"
      "\<lparr>count = 5, windowStart = 0\<rparr>" 3600001 False]
  by (simp add: RATE_WINDOW_MS_def)

text \<open>
  Claim C10. In every store the limiter reaches from the empty store, by any requests of
  any clients, with any clock readings and any state of \<^verbatim>\<open>Object.prototype\<close>, every
  window counts at least 1 and at most \<open>RATE_LIMIT\<close> requests.
\<close>

theorem window_count_in_range:
  assumes "snd (runLimiter calls Map.empty) ip = Some r"
  shows "1 \<le> count r \<and> count r \<le> RATE_LIMIT"
  using runLimiter_windowsOk [OF windowsOk_empty, of calls] assms
  by (simp add: windowsOk_def)

lemma seven_calls:
  "snd (runLimiter
      [(''203.0.113.7'', 0, 0, False), (''constructor'', 0, 1, False), (''203.0.113.7'', 1, 1, False),
       (''203.0.113.7'', 2, 3, False), (''203.0.113.7'', 3, 3, True), (''203.0.113.7'', 4, 4, True),
       (''203.0.113.7'', 5, 5, True)] Map.empty) ''203.0.113.7'' =
     Some \<lparr>count = 5, windowStart = 0\<rparr>"
  by (simp add: rateLimiter_def inheritedProperty_def objectPrototypeNames_def
      RATE_WINDOW_MS_def RATE_LIMIT_def)

theorem window_count_in_range_witness:
  "snd (runLimiter
      [(''203.0.113.7'', 0, 0, False), (''constructor'', 0, 1, False), (''203.0.113.7'', 1, 1, False),
       (''203.0.113.7'', 2, 3, False), (''203.0.113.7'', 3, 3, True), (''203.0.113.7'', 4, 4, True),
       (''203.0.113.7'', 5, 5, True)] Map.empty) ''203.0.113.7'' =
     Some \<lparr>count = 5, windowStart = 0\<rparr>
   \<and> 1 \<le> count \<lparr>count = 5, windowStart = 0\<rparr> \<and> count \<lparr>count = 5, windowStart = 0\<rparr> \<le> RATE_LIMIT"
  using window_count_in_range [OF seven_calls] seven_calls by simp

text \<open>
  The windows are the entries of the store. Under the name of an inherited object the
  store never has one: what the limiter finds there is that object.
\<close>

lemma inherited_key_no_window:
  "inheritedProperty False ip = InheritedObject \<Longrightarrow> snd (runLimiter calls Map.empty) ip = None"
proof -
  assume obj: "inheritedProperty False ip = InheritedObject"
  then have obj': "inheritedProperty p ip = InheritedObject" for p
    by (auto simp: inheritedProperty_def split: if_splits)
  have "store ip = None \<Longrightarrow> snd (runLimiter calls store) ip = None" for store
  proof (induction calls arbitrary: store)
    case Nil
    then show ?case by simp
  next
    case (Cons x calls)
    obtain c t t' p where x: "x = (c, t, t', p)" by (cases x)
    have "snd (rateLimiter p c t t' store) ip = None"
      using Cons.prems obj' [of p]
      by (cases "c = ip") (simp_all add: rateLimiter_other, simp add: rateLimiter_def)
    then show ?case using Cons.IH by (simp add: x split_beta)
  qed
  then show ?thesis by simp
qed

section \<open>The write-back scheduler\<close>

lemma dbCache_bufferedSave: "dbCache (bufferedSave st) = dbCache st"
  by (simp add: bufferedSave_def setTimeout_def Let_def split: option.splits)

lemma saveCalls_bufferedSave: "saveCalls (bufferedSave st) = Suc (saveCalls st)"
  by (simp add: bufferedSave_def setTimeout_def Let_def split: option.splits)

lemma bufferedSave_pending_once:
  "saveTimer st = Some h \<Longrightarrow> bufferedSave st = st\<lparr>saveCalls := Suc (saveCalls st)\<rparr>"
  by (simp add: bufferedSave_def)

lemma bufferedSave_pending_funpow:
  "saveTimer st = Some h \<Longrightarrow> (bufferedSave ^^ n) st = st\<lparr>saveCalls := saveCalls st + n\<rparr>"
  by (induction n) (simp_all add: bufferedSave_pending_once)

text \<open>
  Claim C7. While a flush is pending (\<open>saveTimer\<close> holds the handle of the one timeout
  that has not fired), any number \<open>n\<close> of calls of \<open>bufferedSave\<close> leaves the state as
  it is but for the counter of these calls: no timeout is added. When the delay elapses
  the file is written once, with the cache, no timeout is left and \<open>saveTimer\<close> is
  null again, so that nothing is left to fire.
\<close>

theorem bufferedSave_while_pending:
  assumes "saveTimer st = Some h" and "timeouts st = [h]"
  shows "(bufferedSave ^^ n) st = st\<lparr>saveCalls := saveCalls st + n\<rparr>
       \<and> timeoutFires ((bufferedSave ^^ n) st) =
           st\<lparr>saveCalls := saveCalls st + n, timeouts := [], disk := Some (dbCache st),
              writes := Suc (writes st), saveTimer := None\<rparr>
       \<and> timeoutFires (timeoutFires ((bufferedSave ^^ n) st)) = timeoutFires ((bufferedSave ^^ n) st)"
  using assms
  by (simp add: bufferedSave_pending_funpow [of st h n] timeoutFires_def flush_def)

theorem bufferedSave_while_pending_witness:
  "(bufferedSave ^^ 3) (bufferedSave initial) =
     \<lparr>dbCache = [], saveTimer = Some 1, timeouts = [1], lastTimeout = 1, disk = None,
      writes = 0, saveCalls = 4, protoLastAccessed = False\<rparr>
   \<and> timeoutFires ((bufferedSave ^^ 3) (bufferedSave initial)) =
     \<lparr>dbCache = [], saveTimer = None, timeouts = [], lastTimeout = 1, disk = Some [],
      writes = 1, saveCalls = 4, protoLastAccessed = False\<rparr>"
proof -
  have pending: "bufferedSave initial =
      \<lparr>dbCache = [], saveTimer = Some 1, timeouts = [1], lastTimeout = 1, disk = None,
       writes = 0, saveCalls = 1, protoLastAccessed = False\<rparr>"
    by (simp add: bufferedSave_def setTimeout_def initial_def)
  have a: "saveTimer (bufferedSave initial) = Some 1" and b: "timeouts (bufferedSave initial) = [1]"
    by (simp_all add: pending)
  from bufferedSave_while_pending [OF a b, of 3]
  have "(bufferedSave ^^ 3) (bufferedSave initial) =
          (bufferedSave initial)\<lparr>saveCalls := saveCalls (bufferedSave initial) + 3\<rparr>"
    and "timeoutFires ((bufferedSave ^^ 3) (bufferedSave initial)) =
          (bufferedSave initial)\<lparr>saveCalls := saveCalls (bufferedSave initial) + 3, timeouts := [],
             disk := Some (dbCache (bufferedSave initial)),
             writes := Suc (writes (bufferedSave initial)), saveTimer := None\<rparr>"
    by blast+
  then show ?thesis
    unfolding pending by simp
qed

section \<open>The sweeper\<close>

text \<open>
  The loop deletes the keys that have an entry to evict in the snapshot, and sets the
  flag when there is one.
\<close>

lemma recycleLoop_filter:
  "recycleLoop now xs (c, ch) =
     (filter (\<lambda>(k, v). \<not> (\<exists>e. (k, e) \<in> set xs \<and> (now > expires e \<or> now - lastAccessed e > LAST_ACCESS_LIMIT))) c,
      ch \<or> (\<exists>(k, e) \<in> set xs. now > expires e \<or> now - lastAccessed e > LAST_ACCESS_LIMIT))"
proof (induction xs arbitrary: c ch)
  case Nil
  then show ?case by simp
next
  case (Cons x xs)
  obtain k e where x: "x = (k, e)" by (cases x)
  show ?case
    unfolding x
    by (auto simp: Cons.IH AList.delete_eq intro!: filter_cong)
qed

lemma distinct_keys_unique:
  "distinct (map fst xs) \<Longrightarrow> (k, v) \<in> set xs \<Longrightarrow> (k, e) \<in> set xs \<Longrightarrow> v = e"
  by (metis map_of_eq_Some_iff option.inject)

text \<open>
  Claim C6. One run of the sweeper over a cache with distinct keys removes exactly the
  entries with \<open>now > expires\<close> or \<open>now - lastAccessed > LAST_ACCESS_LIMIT\<close> and keeps
  the others as they are and in their order. It calls \<open>bufferedSave\<close> once when it has
  removed an entry, however many it has removed, and not at all otherwise, when it
  leaves the whole state unchanged.
\<close>

theorem recycle_evicts_expired:
  assumes "distinct (map fst (dbCache st))"
  shows "dbCache (recycle now st) =
           filter (\<lambda>(sid, e). \<not> (now > expires e \<or> now - lastAccessed e > LAST_ACCESS_LIMIT)) (dbCache st)
       \<and> saveCalls (recycle now st) =
           (if \<exists>(sid, e) \<in> set (dbCache st). now > expires e \<or> now - lastAccessed e > LAST_ACCESS_LIMIT
            then saveCalls st + 1 else saveCalls st)
       \<and> ((\<exists>(sid, e) \<in> set (dbCache st). now > expires e \<or> now - lastAccessed e > LAST_ACCESS_LIMIT)
            \<or> recycle now st = st)"
proof -
  let ?dead = "\<lambda>e. now > expires e \<or> now - lastAccessed e > LAST_ACCESS_LIMIT"
  have same: "filter (\<lambda>(k, v). \<not> (\<exists>e. (k, e) \<in> set (dbCache st) \<and> ?dead e)) (dbCache st) =
              filter (\<lambda>(sid, e). \<not> ?dead e) (dbCache st)"
    using distinct_keys_unique [OF assms] by (intro filter_cong) auto
  have none: "filter (\<lambda>(sid, e). \<not> ?dead e) (dbCache st) = dbCache st"
    if "\<not> (\<exists>(sid, e) \<in> set (dbCache st). ?dead e)"
    using that by (intro filter_True) auto
  show ?thesis
    using same none
    by (auto simp: recycle_def recycleLoop_filter dbCache_bufferedSave saveCalls_bufferedSave)
qed

theorem recycle_evicts_expired_witness:
  "dbCache (recycle 700000000
     (initial\<lparr>dbCache :=
        [(''aaaaaa'', \<lparr>originalUrl = ''https://a.example'', created = 0, expires = 604800000,
                       lastAccessed = 600000000, clicks = 2\<rparr>),
         (''bbbbbb'', \<lparr>originalUrl = ''https://b.example'', created = 500000000, expires = 1104800000,
                       lastAccessed = 500000000, clicks = 0\<rparr>),
         (''cccccc'', \<lparr>originalUrl = ''https://c.example'', created = 400000000, expires = 1004800000,
                       lastAccessed = 400000000, clicks = 0\<rparr>)]\<rparr>)) =
     [(''bbbbbb'', \<lparr>originalUrl = ''https://b.example'', created = 500000000, expires = 1104800000,
                    lastAccessed = 500000000, clicks = 0\<rparr>)]
   \<and> saveCalls (recycle 700000000
     (initial\<lparr>dbCache :=
        [(''aaaaaa'', \<lparr>originalUrl = ''https://a.example'', created = 0, expires = 604800000,
                       lastAccessed = 600000000, clicks = 2\<rparr>),
         (''bbbbbb'', \<lparr>originalUrl = ''https://b.example'', created = 500000000, expires = 1104800000,
                       lastAccessed = 500000000, clicks = 0\<rparr>),
         (''cccccc'', \<lparr>originalUrl = ''https://c.example'', created = 400000000, expires = 1004800000,
                       lastAccessed = 400000000, clicks = 0\<rparr>)]\<rparr>)) = 1"
  using recycle_evicts_expired [of "initial\<lparr>dbCache :=
        [(''aaaaaa'', \<lparr>originalUrl = ''https://a.example'', created = 0, expires = 604800000,
                       lastAccessed = 600000000, clicks = 2\<rparr>),
         (''bbbbbb'', \<lparr>originalUrl = ''https://b.example'', created = 500000000, expires = 1104800000,
                       lastAccessed = 500000000, clicks = 0\<rparr>),
         (''cccccc'', \<lparr>originalUrl = ''https://c.example'', created = 400000000, expires = 1004800000,
                       lastAccessed = 400000000, clicks = 0\<rparr>)]\<rparr>" 700000000]
  by (simp add: initial_def LAST_ACCESS_LIMIT_def)

section \<open>Lookups: GET /:id and GET /:id/stats\<close>

lemma dbCache_getId:
  "dbCache (snd (getId sid now now' st)) =
      (case map_of (dbCache st) sid of
         None \<Rightarrow> dbCache st
       | Some e \<Rightarrow>
           if now > expires e then AList.delete sid (dbCache st)
           else AList.update sid (e\<lparr>clicks := clicks e + 1, lastAccessed := now'\<rparr>) (dbCache st))"
  by (simp add: getId_def dbCache_bufferedSave split: option.splits inherited.splits)

lemma dbCache_getStats:
  "dbCache (snd (getStats sid now now' st)) = dbCache (snd (getId sid now now' st))"
  by (simp add: getId_def getStats_def dbCache_bufferedSave split: option.splits inherited.splits)

text \<open>
  Claim C1, as stated, fails: both handlers test \<open>now > expires\<close> only. An entry created
  and last accessed at 0 is looked up at 259200001, one millisecond after 72 hours
  without an access and long before it expires. It is not live, yet the answer is the
  redirect, not the 404, and the entry stays in the cache, with one more click and a new
  time of last access.
\<close>

theorem resolve_ignores_idle:
  "map_of (dbCache (initial\<lparr>dbCache :=
       [(''aaaaaa'', \<lparr>originalUrl = ''https://a.example'', created = 0, expires = 604800000,
                      lastAccessed = 0, clicks = 0\<rparr>)]\<rparr>)) ''aaaaaa'' =
     Some \<lparr>originalUrl = ''https://a.example'', created = 0, expires = 604800000,
           lastAccessed = 0, clicks = 0\<rparr>
   \<and> (259200001::int) - 0 > LAST_ACCESS_LIMIT
   \<and> fst (getId ''aaaaaa'' 259200001 259200001 (initial\<lparr>dbCache :=
       [(''aaaaaa'', \<lparr>originalUrl = ''https://a.example'', created = 0, expires = 604800000,
                      lastAccessed = 0, clicks = 0\<rparr>)]\<rparr>)) = Redirect302 ''https://a.example''
   \<and> dbCache (snd (getId ''aaaaaa'' 259200001 259200001 (initial\<lparr>dbCache :=
       [(''aaaaaa'', \<lparr>originalUrl = ''https://a.example'', created = 0, expires = 604800000,
                      lastAccessed = 0, clicks = 0\<rparr>)]\<rparr>))) =
       [(''aaaaaa'', \<lparr>originalUrl = ''https://a.example'', created = 0, expires = 604800000,
                      lastAccessed = 259200001, clicks = 1\<rparr>)]"
  by (simp add: getId_def initial_def LAST_ACCESS_LIMIT_def dbCache_bufferedSave)

text \<open>
  Claim C1, amended. For every id with a plain key, as every id of six characters is,
  GET /:id and GET /:id/stats answer 404 exactly when the id is absent or
  \<open>now > expires\<close>. An absent id leaves the state as it is; an entry with
  \<open>now > expires\<close> is removed, and no other entry changes. An entry with
  \<open>now \<le> expires\<close>, idle or not, gets one more click and \<open>lastAccessed = now\<close>, no other
  entry changes, and the answer carries the entry: its url in the redirect, all its
  fields in the statistics.
\<close>

theorem resolve_by_expiry:
  assumes "plainKey sid"
  shows "(fst (getId sid now now st) = Status404) =
      (case map_of (dbCache st) sid of None \<Rightarrow> True | Some e \<Rightarrow> now > expires e)
   \<and> (fst (getStats sid now now st) = Status404) =
      (case map_of (dbCache st) sid of None \<Rightarrow> True | Some e \<Rightarrow> now > expires e)
   \<and> (map_of (dbCache st) sid = None \<longrightarrow>
        getId sid now now st = (Status404, st) \<and> getStats sid now now st = (Status404, st))
   \<and> (\<forall>e. map_of (dbCache st) sid = Some e \<and> now > expires e \<longrightarrow>
        fst (getId sid now now st) = Status404
      \<and> map_of (dbCache (snd (getId sid now now st))) = (map_of (dbCache st))(sid := None)
      \<and> fst (getStats sid now now st) = Status404
      \<and> map_of (dbCache (snd (getStats sid now now st))) = (map_of (dbCache st))(sid := None))
   \<and> (\<forall>e. map_of (dbCache st) sid = Some e \<and> now \<le> expires e \<longrightarrow>
        fst (getId sid now now st) = Redirect302 (originalUrl e)
      \<and> map_of (dbCache (snd (getId sid now now st))) =
          (map_of (dbCache st))(sid \<mapsto> e\<lparr>clicks := clicks e + 1, lastAccessed := now\<rparr>)
      \<and> fst (getStats sid now now st) =
          StatsJson sid (originalUrl e) (clicks e + 1) (created e) (expires e) now
      \<and> map_of (dbCache (snd (getStats sid now now st))) =
          (map_of (dbCache st))(sid \<mapsto> e\<lparr>clicks := clicks e + 1, lastAccessed := now\<rparr>))"
proof -
  note plain = plainKey_inherited [OF assms, of "protoLastAccessed st"]
  have answers: "(fst (getId sid now now st) = Status404) =
        (case map_of (dbCache st) sid of None \<Rightarrow> True | Some e \<Rightarrow> now > expires e)"
      "(fst (getStats sid now now st) = Status404) =
        (case map_of (dbCache st) sid of None \<Rightarrow> True | Some e \<Rightarrow> now > expires e)"
    by (simp_all add: getId_def getStats_def plain Let_def split: option.splits)
  have absent: "map_of (dbCache st) sid = None \<longrightarrow>
      getId sid now now st = (Status404, st) \<and> getStats sid now now st = (Status404, st)"
    by (simp add: getId_def getStats_def plain)
  have late: "\<forall>e. map_of (dbCache st) sid = Some e \<and> now > expires e \<longrightarrow>
        fst (getId sid now now st) = Status404
      \<and> map_of (dbCache (snd (getId sid now now st))) = (map_of (dbCache st))(sid := None)
      \<and> fst (getStats sid now now st) = Status404
      \<and> map_of (dbCache (snd (getStats sid now now st))) = (map_of (dbCache st))(sid := None)"
    by (auto simp: getId_def getStats_def AList.delete_conv')
  have early: "\<forall>e. map_of (dbCache st) sid = Some e \<and> now \<le> expires e \<longrightarrow>
        fst (getId sid now now st) = Redirect302 (originalUrl e)
      \<and> map_of (dbCache (snd (getId sid now now st))) =
          (map_of (dbCache st))(sid \<mapsto> e\<lparr>clicks := clicks e + 1, lastAccessed := now\<rparr>)
      \<and> fst (getStats sid now now st) =
          StatsJson sid (originalUrl e) (clicks e + 1) (created e) (expires e) now
      \<and> map_of (dbCache (snd (getStats sid now now st))) =
          (map_of (dbCache st))(sid \<mapsto> e\<lparr>clicks := clicks e + 1, lastAccessed := now\<rparr>)"
    by (auto simp: getId_def getStats_def dbCache_bufferedSave AList.update_conv')
  from answers absent late early show ?thesis by blast
qed

theorem resolve_by_expiry_witness:
  "getId ''zzzzzz'' 5000 5000 (initial\<lparr>dbCache :=
       [(''aaaaaa'', \<lparr>originalUrl = ''https://a.example'', created = 0, expires = 604800000,
                      lastAccessed = 0, clicks = 0\<rparr>)]\<rparr>) =
     (Status404, initial\<lparr>dbCache :=
       [(''aaaaaa'', \<lparr>originalUrl = ''https://a.example'', created = 0, expires = 604800000,
                      lastAccessed = 0, clicks = 0\<rparr>)]\<rparr>)
   \<and> fst (getId ''aaaaaa'' 604800001 604800001 (initial\<lparr>dbCache :=
       [(''aaaaaa'', \<lparr>originalUrl = ''https://a.example'', created = 0, expires = 604800000,
                      lastAccessed = 600000000, clicks = 4\<rparr>)]\<rparr>)) = Status404
   \<and> map_of (dbCache (snd (getStats ''aaaaaa'' 604800001 604800001 (initial\<lparr>dbCache :=
       [(''aaaaaa'', \<lparr>originalUrl = ''https://a.example'', created = 0, expires = 604800000,
                      lastAccessed = 600000000, clicks = 4\<rparr>)]\<rparr>)))) ''aaaaaa'' = None
   \<and> fst (getStats ''aaaaaa'' 604800000 604800000 (initial\<lparr>dbCache :=
       [(''aaaaaa'', \<lparr>originalUrl = ''https://a.example'', created = 0, expires = 604800000,
                      lastAccessed = 0, clicks = 0\<rparr>)]\<rparr>)) =
       StatsJson ''aaaaaa'' ''https://a.example'' 1 0 604800000 604800000"
proof -
  let ?e = "\<lparr>originalUrl = ''https://a.example'', created = 0, expires = 604800000,
             lastAccessed = 0, clicks = 0\<rparr>"
  let ?f = "\<lparr>originalUrl = ''https://a.example'', created = 0, expires = 604800000,
             lastAccessed = 600000000, clicks = 4\<rparr>"
  let ?st = "initial\<lparr>dbCache := [(''aaaaaa'', ?e)]\<rparr>"
  let ?su = "initial\<lparr>dbCache := [(''aaaaaa'', ?f)]\<rparr>"
  have z: "plainKey ''zzzzzz''" and a: "plainKey ''aaaaaa''"
    by (simp_all add: nanoid_plainKey)
  have absent: "map_of (dbCache ?st) ''zzzzzz'' = None" by simp
  have present: "map_of (dbCache ?st) ''aaaaaa'' = Some ?e \<and> 604800000 \<le> expires ?e" by simp
  have late: "map_of (dbCache ?su) ''aaaaaa'' = Some ?f \<and> 604800001 > expires ?f" by simp
  from resolve_by_expiry [OF z, of 5000 ?st] absent
  have 1: "getId ''zzzzzz'' 5000 5000 ?st = (Status404, ?st)" by blast
  from resolve_by_expiry [OF a, of 604800001 ?su] late
  have 2: "fst (getId ''aaaaaa'' 604800001 604800001 ?su) = Status404"
    and 3: "map_of (dbCache (snd (getStats ''aaaaaa'' 604800001 604800001 ?su))) =
            (map_of (dbCache ?su))(''aaaaaa'' := None)" by blast+
  from resolve_by_expiry [OF a, of 604800000 ?st] present
  have 4: "fst (getStats ''aaaaaa'' 604800000 604800000 ?st) =
      StatsJson ''aaaaaa'' (originalUrl ?e) (clicks ?e + 1) (created ?e) (expires ?e) 604800000"
    by blast
  from 1 2 3 4 show ?thesis by simp
qed

text \<open>
  Under the name of an inherited property, with no entry of that name, the handlers do
  not answer 404: they answer from the inherited object and call \<open>bufferedSave\<close>, and
  once a lookup of \<open>__proto__\<close> has given \<^verbatim>\<open>Object.prototype\<close> a \<^verbatim>\<open>lastAccessed\<close>, a lookup
  of \<open>lastAccessed\<close> throws.
\<close>

lemma get_constructor:
  "getId ''constructor'' 5000 5000 initial = (Redirect302Undefined, bufferedSave initial)
   \<and> getStats ''constructor'' 5000 5001 initial = (StatsJsonInherited ''constructor'' 5001, bufferedSave initial)"
  by (simp add: getId_def getStats_def inheritedProperty_def objectPrototypeNames_def initial_def)

lemma get_lastAccessed_after_proto:
  "fst (getId ''lastAccessed'' 5000 5000 initial) = Status404
   \<and> protoLastAccessed (snd (getId ''__proto__'' 5000 5000 initial))
   \<and> fst (getId ''lastAccessed'' 6000 6000 (snd (getId ''__proto__'' 5000 5000 initial))) = HandlerThrows"
  by (simp add: getId_def inheritedProperty_def objectPrototypeNames_def initial_def
      bufferedSave_def setTimeout_def)

section \<open>Creation: POST /shorten\<close>

text \<open>
  Claim C3, as stated, fails: the id that \<^verbatim>\<open>nanoid(6)\<close> returns is stored without a
  test that it is new. When the generator returns \<open>aaaaaa\<close> and the cache already maps
  \<open>aaaaaa\<close>, the request succeeds with that id, which is not a fresh one, and the entry
  that was there, with its three clicks, is replaced.
\<close>

theorem create_reuses_id:
  "map_of (dbCache (initial\<lparr>dbCache :=
       [(''aaaaaa'', \<lparr>originalUrl = ''https://a.example'', created = 0, expires = 604800000,
                      lastAccessed = 0, clicks = 3\<rparr>)]\<rparr>)) ''aaaaaa'' =
     Some \<lparr>originalUrl = ''https://a.example'', created = 0, expires = 604800000,
           lastAccessed = 0, clicks = 3\<rparr>
   \<and> fst (shorten (Some ''https://b.example'') ''aaaaaa'' 1000 1000 (initial\<lparr>dbCache :=
       [(''aaaaaa'', \<lparr>originalUrl = ''https://a.example'', created = 0, expires = 604800000,
                      lastAccessed = 0, clicks = 3\<rparr>)]\<rparr>)) = Status201 ''aaaaaa'' 604801000
   \<and> dbCache (snd (shorten (Some ''https://b.example'') ''aaaaaa'' 1000 1000 (initial\<lparr>dbCache :=
       [(''aaaaaa'', \<lparr>originalUrl = ''https://a.example'', created = 0, expires = 604800000,
                      lastAccessed = 0, clicks = 3\<rparr>)]\<rparr>))) =
       [(''aaaaaa'', \<lparr>originalUrl = ''https://b.example'', created = 1000, expires = 604801000,
                      lastAccessed = 1000, clicks = 0\<rparr>)]"
  by (simp add: shorten_def initial_def EXPIRY_MS_def dbCache_bufferedSave)

text \<open>
  Claim C3, amended. POST /shorten answers 400 exactly when the url is missing or
  empty, and then leaves the state as it is. For every other url it answers 201 with
  the id that the generator returned and \<open>now + EXPIRY_MS\<close>, and the cache maps that id,
  new or not, to the entry with this url, \<open>created = now\<close>,
  \<open>expires = now + EXPIRY_MS\<close>, \<open>lastAccessed = now\<close> and no click; what the cache maps
  every other id to is unchanged.
\<close>

theorem create_stores_record:
  "(fst (shorten url sid now now st) = Status400) = (url = None \<or> url = Some [])
   \<and> (url = None \<or> url = Some [] \<longrightarrow> snd (shorten url sid now now st) = st)
   \<and> (\<forall>u. url = Some u \<and> u \<noteq> [] \<longrightarrow>
        fst (shorten url sid now now st) = Status201 sid (now + EXPIRY_MS)
      \<and> map_of (dbCache (snd (shorten url sid now now st))) =
          (map_of (dbCache st))(sid \<mapsto> \<lparr>originalUrl = u, created = now, expires = now + EXPIRY_MS,
                                       lastAccessed = now, clicks = 0\<rparr>))"
  by (auto simp: shorten_def dbCache_bufferedSave AList.update_conv' Let_def split: option.splits)

theorem create_stores_record_witness:
  "fst (shorten (Some []) ''aaaaaa'' 1000 1000 initial) = Status400
   \<and> snd (shorten (Some []) ''aaaaaa'' 1000 1000 initial) = initial
   \<and> fst (shorten (Some ''https://a.example'') ''aaaaaa'' 1000 1000 initial) =
       Status201 ''aaaaaa'' (1000 + EXPIRY_MS)
   \<and> map_of (dbCache (snd (shorten (Some ''https://a.example'') ''aaaaaa'' 1000 1000 initial))) ''aaaaaa'' =
       Some \<lparr>originalUrl = ''https://a.example'', created = 1000, expires = 1000 + EXPIRY_MS,
             lastAccessed = 1000, clicks = 0\<rparr>"
proof -
  from create_stores_record [of "Some []" "''aaaaaa''" 1000 initial]
  have 1: "fst (shorten (Some []) ''aaaaaa'' 1000 1000 initial) = Status400"
    and 2: "snd (shorten (Some []) ''aaaaaa'' 1000 1000 initial) = initial" by simp_all
  from create_stores_record [of "Some ''https://a.example''" "''aaaaaa''" 1000 initial]
  have 3: "fst (shorten (Some ''https://a.example'') ''aaaaaa'' 1000 1000 initial) =
       Status201 ''aaaaaa'' (1000 + EXPIRY_MS)"
    and 4: "map_of (dbCache (snd (shorten (Some ''https://a.example'') ''aaaaaa'' 1000 1000 initial))) =
       (map_of (dbCache initial))(''aaaaaa'' \<mapsto> \<lparr>originalUrl = ''https://a.example'', created = 1000,
          expires = 1000 + EXPIRY_MS, lastAccessed = 1000, clicks = 0\<rparr>)" by simp_all
  from 1 2 3 4 show ?thesis by simp
qed

section \<open>Runs: an evicted id stays evicted\<close>

lemma dbCache_recycle:
  "dbCache (recycle now st) = fst (recycleLoop now (dbCache st) (dbCache st, False))"
  by (simp add: recycle_def split_beta Let_def dbCache_bufferedSave)

lemma dbCache_timeoutFires: "dbCache (timeoutFires st) = dbCache st"
  by (simp add: timeoutFires_def flush_def split: list.splits)

lemma recycleLoop_keeps_absent:
  "map_of c sid = None \<Longrightarrow> map_of (fst (recycleLoop now xs (c, ch))) sid = None"
  by (auto simp: recycleLoop_filter map_of_eq_None_iff)

text \<open>Only POST /shorten with that id makes the cache map an id it did not map.\<close>

lemma step_keeps_absent:
  assumes "map_of (dbCache st) sid = None" and "\<not> creates sid ev"
  shows "map_of (dbCache (step ev st)) sid = None"
proof (cases ev)
  case (Create url k now now')
  with assms show ?thesis
    by (auto simp: shorten_def dbCache_bufferedSave AList.update_conv' split: option.splits)
next
  case (Resolve k now now')
  with assms show ?thesis
    by (auto simp: dbCache_getId AList.update_conv' AList.delete_conv' split: option.splits)
next
  case (Inspect k now now')
  with assms show ?thesis
    by (auto simp: dbCache_getStats dbCache_getId AList.update_conv' AList.delete_conv'
        split: option.splits)
next
  case (Sweep now)
  with assms show ?thesis
    by (simp add: dbCache_recycle recycleLoop_keeps_absent)
next
  case TimeoutFires
  with assms show ?thesis
    by (simp add: dbCache_timeoutFires)
qed

lemma run_keeps_absent:
  "map_of (dbCache st) sid = None \<Longrightarrow> \<forall>ev \<in> set evs. \<not> creates sid ev \<Longrightarrow>
     map_of (dbCache (run evs st)) sid = None"
  by (induction evs arbitrary: st) (simp_all add: step_keeps_absent)

text \<open>
  Claim C9. GET /:id for an entry whose \<open>expires\<close> has passed answers 404 and removes the
  entry. Whatever happens next, as long as no POST /shorten stores that id again, the id
  stays unmapped, and GET /:id for it, at any instant, answers 404 and changes nothing:
  the id of an entry is the one that \<^verbatim>\<open>nanoid(6)\<close> returned, six characters and so a plain
  key, under which an unmapped id is an absent one.
\<close>

theorem expired_is_gone:
  assumes "map_of (dbCache st) sid = Some e" and "now > expires e"
    and "\<forall>ev \<in> set evs. \<not> creates sid ev"
  shows "fst (getId sid now now st) = Status404
       \<and> map_of (dbCache (snd (getId sid now now st))) sid = None
       \<and> map_of (dbCache (run evs (snd (getId sid now now st)))) sid = None
       \<and> (plainKey sid \<longrightarrow>
            getId sid later later (run evs (snd (getId sid now now st))) =
              (Status404, run evs (snd (getId sid now now st))))"
proof -
  let ?st = "snd (getId sid now now st)"
  have first: "fst (getId sid now now st) = Status404"
    using assms(1,2) by (simp add: getId_def)
  have gone: "map_of (dbCache ?st) sid = None"
    using assms(1,2) by (simp add: getId_def AList.delete_conv')
  have still: "map_of (dbCache (run evs ?st)) sid = None"
    using gone assms(3) by (rule run_keeps_absent)
  then have "getId sid later later (run evs ?st) = (Status404, run evs ?st)" if "plainKey sid"
    using that by (simp add: getId_def plainKey_inherited)
  with first gone still show ?thesis by simp
qed

theorem expired_is_gone_witness:
  "fst (getId ''aaaaaa'' 604800001 604800001 (initial\<lparr>dbCache :=
       [(''aaaaaa'', \<lparr>originalUrl = ''https://a.example'', created = 0, expires = 604800000,
                      lastAccessed = 604800000, clicks = 9\<rparr>)]\<rparr>)) = Status404
   \<and> dbCache (snd (getId ''aaaaaa'' 604800001 604800001 (initial\<lparr>dbCache :=
       [(''aaaaaa'', \<lparr>originalUrl = ''https://a.example'', created = 0, expires = 604800000,
                      lastAccessed = 604800000, clicks = 9\<rparr>)]\<rparr>))) = []
   \<and> fst (getId ''aaaaaa'' 604800003 604800003
       (run [Create (Some ''https://b.example'') ''bbbbbb'' 604800002 604800002, Sweep 604800002,
             Inspect ''aaaaaa'' 604800002 604800002, Resolve ''__proto__'' 604800002 604800002,
             TimeoutFires]
          (snd (getId ''aaaaaa'' 604800001 604800001 (initial\<lparr>dbCache :=
       [(''aaaaaa'', \<lparr>originalUrl = ''https://a.example'', created = 0, expires = 604800000,
                      lastAccessed = 604800000, clicks = 9\<rparr>)]\<rparr>))))) = Status404"
proof -
  let ?e = "\<lparr>originalUrl = ''https://a.example'', created = 0, expires = 604800000,
             lastAccessed = 604800000, clicks = 9\<rparr>"
  let ?st = "initial\<lparr>dbCache := [(''aaaaaa'', ?e)]\<rparr>"
  let ?evs = "[Create (Some ''https://b.example'') ''bbbbbb'' 604800002 604800002, Sweep 604800002,
             Inspect ''aaaaaa'' 604800002 604800002, Resolve ''__proto__'' 604800002 604800002,
             TimeoutFires]"
  have p: "plainKey ''aaaaaa''" by (simp add: nanoid_plainKey)
  have a: "map_of (dbCache ?st) ''aaaaaa'' = Some ?e" by simp
  have b: "604800001 > expires ?e" by simp
  have c: "\<forall>ev \<in> set ?evs. \<not> creates ''aaaaaa'' ev" by simp
  have d: "dbCache (snd (getId ''aaaaaa'' 604800001 604800001 ?st)) = []"
    by (simp add: getId_def)
  from expired_is_gone [OF a b c, of 604800003] p d show ?thesis by simp
qed

section \<open>The invariants of an entry\<close>

text \<open>
  Claim C8 says that every entry of every reachable cache has
  \<open>expires = created + EXPIRY_MS\<close>. The code breaks it: POST /shorten takes \<open>created\<close>
  from one reading of the clock and \<open>expires\<close> from a later one. When the clock reads
  1000 and then 1005, the first request to an empty cache stores an entry with
  \<open>created = 1000\<close> and \<open>expires = 1005 + EXPIRY_MS\<close>.
\<close>

theorem expires_from_second_reading:
  "dbCache (run [Create (Some ''https://a.example'') ''aaaaaa'' 1000 1005] initial) =
     [(''aaaaaa'', \<lparr>originalUrl = ''https://a.example'', created = 1000, expires = 604801005,
                    lastAccessed = 1000, clicks = 0\<rparr>)]
   \<and> (604801005::int) \<noteq> 1000 + EXPIRY_MS"
  by (simp add: shorten_def initial_def EXPIRY_MS_def dbCache_bufferedSave)

lemma set_update_cases:
  "p \<in> set (AList.update k v al) \<Longrightarrow> p = (k, v) \<or> p \<in> set al"
  by (induction al) (auto split: if_splits)

lemma set_delete_subset: "set (AList.delete k al) \<subseteq> set al"
  by (auto simp: AList.delete_eq)

lemma set_recycleLoop_subset: "set (fst (recycleLoop now xs (c, ch))) \<subseteq> set c"
  by (auto simp: recycleLoop_filter)

text \<open>
  An entry of the cache after an event is one of the cache before it, or that one with
  more clicks and another \<open>lastAccessed\<close> (the second reading of a lookup), or the one
  that POST /shorten has built from its two readings.
\<close>

lemma entry_after_step:
  assumes "(k, e') \<in> set (dbCache (step ev st))"
  shows "(k, e') \<in> set (dbCache st)
       \<or> (\<exists>e sid now now'. (k, e) \<in> set (dbCache st) \<and> (ev = Resolve sid now now' \<or> ev = Inspect sid now now')
             \<and> e' = e\<lparr>clicks := clicks e + 1, lastAccessed := now'\<rparr>)
       \<or> (\<exists>url u now now'. ev = Create url k now now'
             \<and> e' = \<lparr>originalUrl = u, created = now, expires = now' + EXPIRY_MS,
                      lastAccessed = now, clicks = 0\<rparr>)"
proof (cases ev)
  case (Create url sid now now')
  show ?thesis
  proof (cases "url = None \<or> url = Some []")
    case True
    then have "step ev st = st" by (auto simp: Create shorten_def)
    with assms show ?thesis by simp
  next
    case False
    then obtain u where u: "url = Some u" "u \<noteq> []" by auto
    let ?e = "\<lparr>originalUrl = u, created = now, expires = now' + EXPIRY_MS, lastAccessed = now, clicks = 0\<rparr>"
    have "dbCache (step ev st) = AList.update sid ?e (dbCache st)"
      using u by (simp add: Create shorten_def dbCache_bufferedSave)
    with assms have "(k, e') = (sid, ?e) \<or> (k, e') \<in> set (dbCache st)"
      by (auto dest: set_update_cases)
    then show ?thesis using Create by auto
  qed
next
  case (Resolve sid now now')
  show ?thesis
  proof (cases "map_of (dbCache st) sid")
    case None
    with assms show ?thesis by (simp add: Resolve dbCache_getId)
  next
    case (Some e)
    then have e: "(sid, e) \<in> set (dbCache st)" by (rule map_of_SomeD)
    show ?thesis
    proof (cases "now > expires e")
      case True
      with assms Some set_delete_subset [of sid "dbCache st"] show ?thesis
        by (auto simp: Resolve dbCache_getId)
    next
      case False
      let ?e = "e\<lparr>clicks := clicks e + 1, lastAccessed := now'\<rparr>"
      from assms Some False have "(k, e') = (sid, ?e) \<or> (k, e') \<in> set (dbCache st)"
        by (auto simp: Resolve dbCache_getId dest: set_update_cases)
      with e show ?thesis using Resolve by auto
    qed
  qed
next
  case (Inspect sid now now')
  show ?thesis
  proof (cases "map_of (dbCache st) sid")
    case None
    with assms show ?thesis by (simp add: Inspect dbCache_getStats dbCache_getId)
  next
    case (Some e)
    then have e: "(sid, e) \<in> set (dbCache st)" by (rule map_of_SomeD)
    show ?thesis
    proof (cases "now > expires e")
      case True
      with assms Some set_delete_subset [of sid "dbCache st"] show ?thesis
        by (auto simp: Inspect dbCache_getStats dbCache_getId)
    next
      case False
      let ?e = "e\<lparr>clicks := clicks e + 1, lastAccessed := now'\<rparr>"
      from assms Some False have "(k, e') = (sid, ?e) \<or> (k, e') \<in> set (dbCache st)"
        by (auto simp: Inspect dbCache_getStats dbCache_getId dest: set_update_cases)
      with e show ?thesis using Inspect by auto
    qed
  qed
next
  case (Sweep now)
  with assms set_recycleLoop_subset [of now "dbCache st" "dbCache st" False] show ?thesis
    by (auto simp: dbCache_recycle)
next
  case TimeoutFires
  with assms show ?thesis by (simp add: dbCache_timeoutFires)
qed

text \<open>
  Where every POST /shorten of a run gets the same instant from its two readings, the
  entries keep \<open>expires = created + EXPIRY_MS\<close>.
\<close>

lemma exact_if_readings_agree:
  assumes "\<forall>(k, e) \<in> set (dbCache st). expires e = created e + EXPIRY_MS"
    and "\<forall>ev \<in> set evs. readsAgree ev"
  shows "\<forall>(k, e) \<in> set (dbCache (run evs st)). expires e = created e + EXPIRY_MS"
  using assms
proof (induction evs arbitrary: st)
  case Nil
  then show ?case by simp
next
  case (Cons ev evs)
  have "\<forall>(k, e) \<in> set (dbCache (step ev st)). expires e = created e + EXPIRY_MS"
  proof (intro ballI, clarify)
    fix k e' assume "(k, e') \<in> set (dbCache (step ev st))"
    from entry_after_step [OF this] Cons.prems show "expires e' = created e' + EXPIRY_MS"
      by (elim disjE exE conjE) (fastforce+)
  qed
  with Cons.IH [of "step ev st"] Cons.prems(2) show ?case by simp
qed

text \<open>
  Under a clock that never goes back, between the events and between the two readings
  of one, the entries keep \<open>created + EXPIRY_MS \<le> expires\<close> and
  \<open>created \<le> lastAccessed\<close>.
\<close>

lemma recordsOk_mono: "recordsOk t st \<Longrightarrow> t \<le> t' \<Longrightarrow> recordsOk t' st"
  by (fastforce simp: recordsOk_def)

lemma recordsOk_step:
  assumes "recordsOk t st" and "clockOk t (ev # evs)"
  shows "\<exists>t'. recordsOk t' (step ev st) \<and> clockOk t' evs"
proof -
  have later: "\<And>k e. (k, e) \<in> set (dbCache st) \<Longrightarrow>
      created e + EXPIRY_MS \<le> expires e \<and> created e \<le> lastAccessed e \<and> lastAccessed e \<le> t"
    using assms(1) by (auto simp: recordsOk_def)
  have ok: "recordsOk t' (step ev st)"
    if a: "\<And>k e'. (k, e') \<in> set (dbCache (step ev st)) \<Longrightarrow>
        created e' + EXPIRY_MS \<le> expires e' \<and> created e' \<le> lastAccessed e' \<and> lastAccessed e' \<le> t'" for t'
    using a by (auto simp: recordsOk_def)
  show ?thesis
  proof (cases ev)
    case (Create url sid now now')
    then have c: "t \<le> now" "now \<le> now'" "clockOk now' evs" using assms(2) by simp_all
    have "recordsOk now' (step ev st)"
    proof (rule ok)
      fix k e' assume "(k, e') \<in> set (dbCache (step ev st))"
      from entry_after_step [OF this] later c Create
      show "created e' + EXPIRY_MS \<le> expires e' \<and> created e' \<le> lastAccessed e' \<and> lastAccessed e' \<le> now'"
        by (elim disjE exE conjE) (fastforce+)
    qed
    with c show ?thesis by blast
  next
    case (Resolve sid now now')
    then have c: "t \<le> now" "now \<le> now'" "clockOk now' evs" using assms(2) by simp_all
    have "recordsOk now' (step ev st)"
    proof (rule ok)
      fix k e' assume "(k, e') \<in> set (dbCache (step ev st))"
      from entry_after_step [OF this] later c Resolve
      show "created e' + EXPIRY_MS \<le> expires e' \<and> created e' \<le> lastAccessed e' \<and> lastAccessed e' \<le> now'"
        by (elim disjE exE conjE) (fastforce+)
    qed
    with c show ?thesis by blast
  next
    case (Inspect sid now now')
    then have c: "t \<le> now" "now \<le> now'" "clockOk now' evs" using assms(2) by simp_all
    have "recordsOk now' (step ev st)"
    proof (rule ok)
      fix k e' assume "(k, e') \<in> set (dbCache (step ev st))"
      from entry_after_step [OF this] later c Inspect
      show "created e' + EXPIRY_MS \<le> expires e' \<and> created e' \<le> lastAccessed e' \<and> lastAccessed e' \<le> now'"
        by (elim disjE exE conjE) (fastforce+)
    qed
    with c show ?thesis by blast
  next
    case (Sweep now)
    then have c: "t \<le> now" "clockOk now evs" using assms(2) by simp_all
    have "recordsOk now (step ev st)"
    proof (rule ok)
      fix k e' assume "(k, e') \<in> set (dbCache (step ev st))"
      from entry_after_step [OF this] later c Sweep
      show "created e' + EXPIRY_MS \<le> expires e' \<and> created e' \<le> lastAccessed e' \<and> lastAccessed e' \<le> now"
        by (elim disjE exE conjE) (fastforce+)
    qed
    with c show ?thesis by blast
  next
    case TimeoutFires
    then have c: "clockOk t evs" using assms(2) by simp
    have "recordsOk t (step ev st)"
      using assms(1) by (simp add: TimeoutFires recordsOk_def dbCache_timeoutFires)
    with c show ?thesis by blast
  qed
qed

lemma run_recordsOk:
  "recordsOk t st \<Longrightarrow> clockOk t evs \<Longrightarrow> \<exists>t'. recordsOk t' (run evs st)"
proof (induction evs arbitrary: t st)
  case Nil
  then show ?case by auto
next
  case (Cons ev evs)
  from recordsOk_step [OF Cons.prems] obtain t' where "recordsOk t' (step ev st)" "clockOk t' evs"
    by blast
  then show ?case using Cons.IH by simp
qed

lemma records_bounds:
  assumes "recordsOk t st" and "clockOk t evs"
  shows "\<forall>(k, e) \<in> set (dbCache (run evs st)).
           created e + EXPIRY_MS \<le> expires e \<and> created e \<le> lastAccessed e"
proof -
  obtain t' where "recordsOk t' (run evs st)"
    using run_recordsOk [OF assms] by blast
  then show ?thesis by (fastforce simp: recordsOk_def)
qed

text \<open>
  No event but a POST /shorten with that id changes the \<open>created\<close> or the \<open>expires\<close>
  that the cache gives for an id, whatever the clock reads.
\<close>

lemma map_of_recycleLoop:
  "map_of (fst (recycleLoop now xs (c, ch))) sid = Some e \<Longrightarrow> map_of c sid = Some e"
proof -
  let ?K = "{k. \<not> (\<exists>e. (k, e) \<in> set xs \<and> (now > expires e \<or> now - lastAccessed e > LAST_ACCESS_LIMIT))}"
  have "fst (recycleLoop now xs (c, ch)) = filter (\<lambda>x. fst x \<in> ?K) c"
    by (auto simp: recycleLoop_filter intro!: filter_cong)
  then have "map_of (fst (recycleLoop now xs (c, ch))) = map_of c |` ?K"
    using map_of_filter [of "\<lambda>k. k \<in> ?K" c] by simp
  then show "map_of (fst (recycleLoop now xs (c, ch))) sid = Some e \<Longrightarrow> map_of c sid = Some e"
    by (simp add: restrict_map_def split: if_splits)
qed

lemma step_keeps_created:
  assumes "\<not> creates sid ev" and "map_of (dbCache (step ev st)) sid = Some e'"
  shows "\<exists>e. map_of (dbCache st) sid = Some e \<and> created e' = created e \<and> expires e' = expires e"
proof (cases ev)
  case (Create url k now now')
  with assms show ?thesis
    by (auto simp: shorten_def dbCache_bufferedSave AList.update_conv' split: option.splits if_splits)
next
  case (Resolve k now now')
  with assms show ?thesis
    by (auto simp: dbCache_getId AList.update_conv' AList.delete_conv' split: option.splits if_splits)
next
  case (Inspect k now now')
  with assms show ?thesis
    by (auto simp: dbCache_getStats dbCache_getId AList.update_conv' AList.delete_conv'
        split: option.splits if_splits)
next
  case (Sweep now)
  with assms show ?thesis
    by (auto simp: dbCache_recycle dest: map_of_recycleLoop)
next
  case TimeoutFires
  with assms show ?thesis
    by (simp add: dbCache_timeoutFires)
qed

lemma run_keeps_created:
  "\<forall>ev \<in> set evs. \<not> creates sid ev \<Longrightarrow> map_of (dbCache (run evs st)) sid = Some e' \<Longrightarrow>
     \<exists>e. map_of (dbCache st) sid = Some e \<and> created e' = created e \<and> expires e' = expires e"
proof (induction evs arbitrary: st)
  case Nil
  then show ?case by simp
next
  case (Cons ev evs)
  then obtain e1 where e1: "map_of (dbCache (step ev st)) sid = Some e1"
      "created e' = created e1" "expires e' = expires e1"
    by fastforce
  from Cons.prems(1) have "\<not> creates sid ev" by simp
  from step_keeps_created [OF this e1(1)] e1(2,3) show ?case by auto
qed

section \<open>The states a run reaches\<close>

text \<open>
  The hypotheses of the theorems on the sweeper and on the scheduler hold in every state
  that a run reaches from the initial one: the keys of the cache are distinct, and
  \<open>saveTimer\<close> and the pending timeouts agree.
\<close>

lemma distinct_recycleLoop:
  "distinct (map fst c) \<Longrightarrow> distinct (map fst (fst (recycleLoop now xs (c, ch))))"
  by (simp add: recycleLoop_filter distinct_map_filter)

lemma distinct_step:
  assumes "distinct (map fst (dbCache st))"
  shows "distinct (map fst (dbCache (step ev st)))"
proof (cases ev)
  case (Create url k now now')
  with assms show ?thesis
    by (auto simp: shorten_def dbCache_bufferedSave AList.distinct_update split: option.splits)
next
  case (Resolve k now now')
  with assms show ?thesis
    by (auto simp: dbCache_getId AList.distinct_update AList.distinct_delete split: option.splits)
next
  case (Inspect k now now')
  with assms show ?thesis
    by (auto simp: dbCache_getStats dbCache_getId AList.distinct_update AList.distinct_delete
        split: option.splits)
next
  case (Sweep now)
  with assms show ?thesis
    by (simp add: dbCache_recycle distinct_recycleLoop)
next
  case TimeoutFires
  with assms show ?thesis
    by (simp add: dbCache_timeoutFires)
qed

lemma distinct_run: "distinct (map fst (dbCache (run evs initial)))"
proof -
  have "distinct (map fst (dbCache st)) \<Longrightarrow> distinct (map fst (dbCache (run evs st)))" for st
    by (induction evs arbitrary: st) (simp_all add: distinct_step)
  then show ?thesis by (simp add: initial_def)
qed

lemma timerOk_bufferedSave: "timerOk st \<Longrightarrow> timerOk (bufferedSave st)"
  by (auto simp: timerOk_def bufferedSave_def setTimeout_def split: option.splits)

lemma timerOk_dbCache: "timerOk (st\<lparr>dbCache := c\<rparr>) = timerOk st"
  by (simp add: timerOk_def split: option.splits)

lemma timerOk_proto: "timerOk (st\<lparr>protoLastAccessed := b\<rparr>) = timerOk st"
  by (simp add: timerOk_def split: option.splits)

lemma timerOk_step: "timerOk st \<Longrightarrow> timerOk (step ev st)"
proof (cases ev)
  case (Sweep now)
  assume "timerOk st"
  then show ?thesis
    by (simp add: Sweep recycle_def split_beta Let_def timerOk_bufferedSave timerOk_dbCache)
next
  case TimeoutFires
  assume "timerOk st"
  then show ?thesis
    by (auto simp: TimeoutFires timerOk_def timeoutFires_def flush_def split: option.splits list.splits)
qed (auto simp: shorten_def getId_def getStats_def Let_def timerOk_bufferedSave timerOk_dbCache
      timerOk_proto split: option.splits inherited.splits)

lemma timerOk_run: "timerOk (run evs initial)"
proof -
  have "timerOk st \<Longrightarrow> timerOk (run evs st)" for st
    by (induction evs arbitrary: st) (simp_all add: timerOk_step)
  then show ?thesis by (simp add: timerOk_def initial_def)
qed

end
